theory Spec2Isabelle
  imports Main
begin

section \<open>Function objects and React's memo cells\<close>

text \<open>
  Every evaluation of an arrow-function expression creates a new function object; two
  function values are reference-equal exactly when they are the same object. A function
  object is identified by a number, given out by an allocation counter (\<open>next_fn\<close>).

  \<open>useCallback(f, deps)\<close> and \<open>useMemo(factory, deps)\<close> own a cell that survives from one
  render of the component to the next. On the first render the cell is empty and the new
  value is stored. On a later render the stored value is returned when the dependency
  array equals the stored one, and replaced otherwise.
\<close>

type_synonym fn_id = nat

definition useCallback :: "fn_id \<Rightarrow> 'd list \<Rightarrow> (fn_id \<times> 'd list) option \<Rightarrow> fn_id \<times> 'd list" where
  "useCallback f deps cell =
     (case cell of
        None \<Rightarrow> (f, deps)
      | Some (g, old) \<Rightarrow> if deps = old then (g, old) else (f, deps))"

section \<open>The latest-callback cell: useEventCallback (chapter-10/optimised.tsx)\<close>

text \<open>
  A callback takes its arguments and the state of the application it closes over, and
  returns a result and the new application state.

  \<open>ref_cell\<close> is the object made by \<open>useRef(callback)\<close> (empty before the first render),
  \<open>callback_cell\<close> the cell of \<open>useCallback\<close>, \<open>mounted\<close> whether React still has the
  owning component mounted.
\<close>

type_synonym ('a, 'w, 'r) callback = "'a \<Rightarrow> 'w \<Rightarrow> 'r \<times> 'w"

record ('a, 'w, 'r) scope =
  ref_cell :: "('a, 'w, 'r) callback option"
  callback_cell :: "(fn_id \<times> unit list) option"
  next_fn :: fn_id
  mounted :: bool

definition fresh_scope :: "fn_id \<Rightarrow> ('a, 'w, 'r) scope" where
  "fresh_scope n = \<lparr>ref_cell = None, callback_cell = None, next_fn = n, mounted = True\<rparr>"

text \<open>The effect without dependencies, run after every render: \<open>ref.current = callback\<close>.\<close>

definition register :: "('a, 'w, 'r) callback \<Rightarrow> ('a, 'w, 'r) scope \<Rightarrow> ('a, 'w, 'r) scope" where
  "register cb sc = sc\<lparr>ref_cell := Some cb\<rparr>"

text \<open>
  One render of a component that calls \<open>useEventCallback(callback)\<close>, with the effect
  that follows it. The arrow function \<open>(...args) => ref.current(...args)\<close> is created anew
  by every render (\<open>next_fn\<close>); what the hook returns is what \<open>useCallback\<close> answers for
  the empty dependency array.
\<close>

definition useEventCallback ::
  "('a, 'w, 'r) callback \<Rightarrow> ('a, 'w, 'r) scope \<Rightarrow> fn_id \<times> ('a, 'w, 'r) scope" where
  "useEventCallback cb sc =
     (let sc1 = (case ref_cell sc of None \<Rightarrow> sc\<lparr>ref_cell := Some cb\<rparr> | Some _ \<Rightarrow> sc);
          f = next_fn sc1;
          (g, deps) = useCallback f [] (callback_cell sc1);
          sc2 = sc1\<lparr>callback_cell := Some (g, deps), next_fn := Suc f\<rparr>
      in (g, register cb sc2))"

text \<open>
  Calling the returned function: \<open>return ref.current(...args)\<close>. Every function object the
  hook creates has this body and closes over the same ref object, so the call does not
  depend on which of them is called. There is no trigger before the first render (\<open>None\<close>).
\<close>

definition trigger ::
  "('a, 'w, 'r) scope \<Rightarrow> 'a \<Rightarrow> 'w \<Rightarrow> ('r \<times> 'w) option" where
  "trigger sc args w = (case ref_cell sc of None \<Rightarrow> None | Some cb \<Rightarrow> Some (cb args w))"


text \<open>Successive renders, one callback each; the function returned by each render.\<close>

fun renders ::
  "('a, 'w, 'r) callback list \<Rightarrow> ('a, 'w, 'r) scope \<Rightarrow> fn_id list \<times> ('a, 'w, 'r) scope" where
  "renders [] sc = ([], sc)"
| "renders (cb # cbs) sc =
     (let (g, sc1) = useEventCallback cb sc;
          (gs, sc2) = renders cbs sc1
      in (g # gs, sc2))"

section \<open>The timer facility\<close>

text \<open>
  The browser's clock and timers, as far as \<open>debounce\<close> and \<open>throttle\<close> use them:
  \<open>Date.now()\<close> reads \<open>now\<close> (milliseconds), \<open>setTimeout\<close> returns a handle that is
  positive and never handed out twice, and a timer set at time \<open>t\<close> with delay \<open>d\<close> runs
  when the clock reaches \<open>t + d\<close>. A queued timer is its handle, the time it is due and
  the arguments its closure captured. \<open>app\<close> is the state of the application that the
  scheduled callbacks act on.
\<close>

record ('a, 'w) env =
  now :: nat
  next_handle :: nat
  queue :: "(nat \<times> nat \<times> 'a) list"
  app :: 'w

definition setTimeout :: "'a \<Rightarrow> nat \<Rightarrow> ('a, 'w) env \<Rightarrow> nat \<times> ('a, 'w) env" where
  "setTimeout args delay E =
     (next_handle E,
      E\<lparr>next_handle := Suc (next_handle E),
        queue := queue E @ [(next_handle E, now E + delay, args)]\<rparr>)"

definition clearTimeout :: "nat \<Rightarrow> ('a, 'w) env \<Rightarrow> ('a, 'w) env" where
  "clearTimeout h E = E\<lparr>queue := filter (\<lambda>x. fst x \<noteq> h) (queue E)\<rparr>"

text \<open>\<open>if (timeoutId)\<close>: a handle that is neither \<open>null\<close> nor \<open>0\<close>.\<close>

definition truthy :: "nat option \<Rightarrow> bool" where
  "truthy timeoutId = (case timeoutId of None \<Rightarrow> False | Some h \<Rightarrow> h \<noteq> 0)"

text \<open>The timer to run next: the earliest one due by \<open>t\<close>, the older one among equals.\<close>

fun earliest :: "(nat \<times> nat \<times> 'a) \<Rightarrow> (nat \<times> nat \<times> 'a) list \<Rightarrow> (nat \<times> nat \<times> 'a)" where
  "earliest m [] = m"
| "earliest m (x # xs) = earliest (if fst (snd x) < fst (snd m) then x else m) xs"

definition next_due :: "nat \<Rightarrow> (nat \<times> nat \<times> 'a) list \<Rightarrow> (nat \<times> nat \<times> 'a) option" where
  "next_due t q =
     (case filter (\<lambda>x. fst (snd x) \<le> t) q of
        [] \<Rightarrow> None
      | x # xs \<Rightarrow> Some (earliest x xs))"

lemma earliest_in_set: "earliest m xs \<in> set (m # xs)"
  by (induction xs arbitrary: m) (auto split: if_splits)

lemma next_due_in_queue: "next_due t q = Some x \<Longrightarrow> x \<in> set q"
proof -
  assume a: "next_due t q = Some x"
  then obtain y ys where f: "filter (\<lambda>x. fst (snd x) \<le> t) q = y # ys" and x: "x = earliest y ys"
    by (auto simp: next_due_def split: list.splits)
  have "x \<in> set (y # ys)" using x earliest_in_set by metis
  then have "x \<in> set (filter (\<lambda>x. fst (snd x) \<le> t) q)" using f by simp
  then show ?thesis by simp
qed

lemma next_due_shrinks:
  "next_due t q = Some (h, d, a) \<Longrightarrow> length (filter (\<lambda>x. fst x \<noteq> h) q) < length q"
  by (rule length_filter_less [OF next_due_in_queue]) auto

text \<open>
  Letting the clock run to time \<open>t\<close>: as long as a timer is due, the clock moves to its
  due time, the timer leaves the queue and its closure runs (\<open>fire\<close>, on the variables
  \<open>c\<close> of the scheduler that set it and on the application state). The closures of
  \<open>debounce\<close> and \<open>throttle\<close> set and clear no timers themselves.
\<close>

function run_timers ::
  "('a \<Rightarrow> nat \<Rightarrow> 'c \<times> 'w \<Rightarrow> 'c \<times> 'w) \<Rightarrow> nat \<Rightarrow> 'c \<times> ('a, 'w) env \<Rightarrow> 'c \<times> ('a, 'w) env" where
  "run_timers fire t (c, E) =
     (case next_due t (queue E) of
        None \<Rightarrow> (c, E\<lparr>now := max (now E) t\<rparr>)
      | Some (h, due, args) \<Rightarrow>
          (let E1 = E\<lparr>now := max (now E) due, queue := filter (\<lambda>x. fst x \<noteq> h) (queue E)\<rparr>;
               (c', w') = fire args (now E1) (c, app E1)
           in run_timers fire t (c', E1\<lparr>app := w'\<rparr>)))"
  by pat_completeness auto
termination
  by (relation "measure (\<lambda>(fire, t, c, E). length (queue E))") (auto simp: next_due_shrinks)

declare run_timers.simps [simp del]

datatype 'a sched_event = Call 'a | Elapse nat | Cancel

section \<open>debounce (chapter 11)\<close>

text \<open>
  \<open>debounce(callback, wait)\<close> returns \<open>debouncedFn\<close>, whose closure holds one variable,
  \<open>timeoutId\<close>, \<open>null\<close> at first. The state is that variable and the environment; the
  two arguments of \<open>debounce\<close> do not change and are passed to every step.

  A scheduled callback acts on the application state and may read the clock: it is given
  its arguments and the time at which it runs. What it returns is discarded by the timer.
\<close>

type_synonym ('a, 'w) timed_callback = "'a \<Rightarrow> nat \<Rightarrow> 'w \<Rightarrow> 'w"

definition debouncedFn ::
  "nat \<Rightarrow> 'a \<Rightarrow> nat option \<times> ('a, 'w) env \<Rightarrow> nat option \<times> ('a, 'w) env" where
  "debouncedFn wait args s =
     (case s of (timeoutId, E) \<Rightarrow>
        (let E1 = (if truthy timeoutId then clearTimeout (case timeoutId of Some h \<Rightarrow> h | None \<Rightarrow> 0) E else E);
             (h, E2) = setTimeout args wait E1
         in (Some h, E2)))"

definition debounce_cancel :: "nat option \<times> ('a, 'w) env \<Rightarrow> nat option \<times> ('a, 'w) env" where
  "debounce_cancel s =
     (case s of (timeoutId, E) \<Rightarrow>
        (if truthy timeoutId
         then (timeoutId, clearTimeout (case timeoutId of Some h \<Rightarrow> h | None \<Rightarrow> 0) E)
         else (timeoutId, E)))"

text \<open>The closure of the timer: \<open>() => { callback(...args) }\<close>, run at time \<open>t\<close>.\<close>

definition debounce_fire ::
  "('a, 'w) timed_callback \<Rightarrow> 'a \<Rightarrow> nat \<Rightarrow> nat option \<times> 'w \<Rightarrow> nat option \<times> 'w" where
  "debounce_fire callback args t s = (case s of (timeoutId, w) \<Rightarrow> (timeoutId, callback args t w))"

fun debounce_step ::
  "('a, 'w) timed_callback \<Rightarrow> nat \<Rightarrow> 'a sched_event \<Rightarrow>
   nat option \<times> ('a, 'w) env \<Rightarrow> nat option \<times> ('a, 'w) env" where
  "debounce_step callback wait (Call args) s = debouncedFn wait args s"
| "debounce_step callback wait (Elapse d) s = run_timers (debounce_fire callback) (now (snd s) + d) s"
| "debounce_step callback wait Cancel s = debounce_cancel s"

definition debounce_run ::
  "('a, 'w) timed_callback \<Rightarrow> nat \<Rightarrow> 'a sched_event list \<Rightarrow>
   nat option \<times> ('a, 'w) env \<Rightarrow> nat option \<times> ('a, 'w) env" where
  "debounce_run callback wait evs s = fold (debounce_step callback wait) evs s"

text \<open>
  A new debounced function at time \<open>t0\<close>: \<open>timeoutId = null\<close>, none of its timers queued.
\<close>

definition debounce :: "nat \<Rightarrow> nat \<Rightarrow> 'w \<Rightarrow> nat option \<times> ('a, 'w) env" where
  "debounce t0 h0 w0 = (None, \<lparr>now = t0, next_handle = Suc h0, queue = [], app = w0\<rparr>)"

text \<open>
  A burst of calls: the first with \<open>a0\<close>, each further one a gap after the one before.
\<close>

fun burst :: "'a \<Rightarrow> (nat \<times> 'a) list \<Rightarrow> 'a sched_event list" where
  "burst a0 [] = [Call a0]"
| "burst a0 ((gap, a) # rest) = Call a0 # Elapse gap # burst a rest"

fun last_args :: "'a \<Rightarrow> (nat \<times> 'a) list \<Rightarrow> 'a" where
  "last_args a0 [] = a0"
| "last_args a0 ((gap, a) # rest) = last_args a rest"

fun duration :: "(nat \<times> 'a) list \<Rightarrow> nat" where
  "duration [] = 0"
| "duration ((gap, a) # rest) = gap + duration rest"

subsection \<open>Running the timers of a debounced function\<close>

lemma next_due_Nil [simp]: "next_due t [] = None"
  by (simp add: next_due_def)

lemma next_due_single [simp]:
  "next_due t [(h, d, a)] = (if d \<le> t then Some (h, d, a) else None)"
  by (simp add: next_due_def)

lemma run_timers_idle: "queue E = [] \<Longrightarrow> run_timers fire t (c, E) = (c, E\<lparr>now := max (now E) t\<rparr>)"
  by (simp add: run_timers.simps)

lemma run_timers_early:
  "queue E = [(h, d, a)] \<Longrightarrow> t < d \<Longrightarrow> run_timers fire t (c, E) = (c, E\<lparr>now := max (now E) t\<rparr>)"
  by (simp add: run_timers.simps)

lemma run_timers_single:
  "queue E = [(h, d, a)] \<Longrightarrow> d \<le> t \<Longrightarrow> fire a (max (now E) d) (c, app E) = (c', w') \<Longrightarrow>
   run_timers fire t (c, E) = (c', E\<lparr>now := max (max (now E) d) t, queue := [], app := w'\<rparr>)"
  by (simp add: run_timers.simps[of fire t c E] run_timers_idle)

text \<open>
  What holds of a debounced function between calls: none of its timers is queued, or
  exactly the one whose handle \<open>timeoutId\<close> holds.
\<close>

definition armed :: "nat option \<times> ('a, 'w) env \<Rightarrow> bool" where
  "armed s = (case s of (timeoutId, E) \<Rightarrow>
      queue E = [] \<or> (\<exists>h d a. queue E = [(h, d, a)] \<and> timeoutId = Some h \<and> h \<noteq> 0))"

lemma debouncedFn_armed:
  "armed (tid, E) \<Longrightarrow>
   debouncedFn w a (tid, E) =
     (Some (next_handle E), E\<lparr>next_handle := Suc (next_handle E), queue := [(next_handle E, now E + w, a)]\<rparr>)"
  by (auto simp: armed_def debouncedFn_def truthy_def setTimeout_def clearTimeout_def split: option.splits)


lemma debounce_run_Cons:
  "debounce_run cb w (e # es) s = debounce_run cb w es (debounce_step cb w e s)"
  by (simp add: debounce_run_def)

lemma debounce_run_Nil: "debounce_run cb w [] s = s"
  by (simp add: debounce_run_def)

lemma debounce_run_append:
  "debounce_run cb w (es @ fs) s = debounce_run cb w fs (debounce_run cb w es s)"
  by (simp add: debounce_run_def)

lemmas debounce_run_simps = debounce_run_Cons debounce_run_Nil debounce_run_append

lemma burst_pending:
  "armed (tid, E) \<Longrightarrow> next_handle E \<noteq> 0 \<Longrightarrow> \<forall>(g, a) \<in> set calls. g < w \<Longrightarrow>
   debounce_run cb w (burst a0 calls) (tid, E) =
     (Some (next_handle E + length calls),
      E\<lparr>now := now E + duration calls,
        next_handle := Suc (next_handle E + length calls),
        queue := [(next_handle E + length calls, now E + duration calls + w, last_args a0 calls)]\<rparr>)"
proof (induction calls arbitrary: a0 tid E)
  case Nil
  then show ?case by (simp add: debouncedFn_armed debounce_run_simps)
next
  case (Cons c calls)
  obtain g a where c: "c = (g, a)" by (cases c)
  let ?h = "next_handle E"
  let ?E1 = "E\<lparr>next_handle := Suc ?h, queue := [(?h, now E + w, a0)]\<rparr>"
  let ?E2 = "?E1\<lparr>now := now E + g\<rparr>"
  have g: "g < w" using Cons.prems(3) c by simp
  have call: "debouncedFn w a0 (tid, E) = (Some ?h, ?E1)"
    using Cons.prems(1) by (rule debouncedFn_armed)
  have wait: "run_timers (debounce_fire cb) (now E + g) (Some ?h, ?E1) = (Some ?h, ?E2)"
    using g by (simp add: run_timers_early [where h = ?h and d = "now E + w" and a = a0] max_def)
  have arm: "armed (Some ?h, ?E2)"
    using Cons.prems(2) by (simp add: armed_def)
  have rest: "\<forall>(g, a) \<in> set calls. g < w" using Cons.prems(3) by simp
  have "debounce_run cb w (burst a0 (c # calls)) (tid, E) = debounce_run cb w (burst a calls) (Some ?h, ?E2)"
    by (simp add: c call wait debounce_run_simps)
  also have "\<dots> = (Some (next_handle ?E2 + length calls),
      ?E2\<lparr>now := now ?E2 + duration calls,
        next_handle := Suc (next_handle ?E2 + length calls),
        queue := [(next_handle ?E2 + length calls, now ?E2 + duration calls + w, last_args a calls)]\<rparr>)"
    by (rule Cons.IH [OF arm _ rest]) simp
  finally show ?case by (simp add: c add.assoc)
qed

section \<open>throttle (chapter 11, optimised)\<close>

text \<open>
  \<open>throttle(callback, wait)\<close> returns \<open>throttledFn\<close>, whose closure holds \<open>lastTime\<close>
  (at first 0) and \<open>timeoutId\<close> (at first \<open>null\<close>). JavaScript subtracts without
  truncation, so the comparison and the delay are computed over the integers.
\<close>

record throttle_vars =
  lastTime :: nat
  timeoutId :: "nat option"







subsection \<open>Calls of a throttled function inside a window\<close>










section \<open>useDebounce (chapter 11, optimised)\<close>

text \<open>
  \<open>useMemo(factory, deps)\<close>: the factory runs, and may allocate, only when the cell is
  empty or the dependencies changed.
\<close>

definition useMemo ::
  "('s \<Rightarrow> fn_id \<times> 's) \<Rightarrow> 'd list \<Rightarrow> (fn_id \<times> 'd list) option \<Rightarrow> 's \<Rightarrow> (fn_id \<times> 'd list) \<times> 's" where
  "useMemo factory deps cell s =
     (case cell of
        None \<Rightarrow> (let (v, s') = factory s in ((v, deps), s'))
      | Some (v, old) \<Rightarrow>
          if deps = old then ((v, old), s)
          else (let (v', s') = factory s in ((v', deps), s')))"

text \<open>
  The state of a component that calls \<open>useDebounce(callback, delay)\<close>: the ref object
  \<open>callbackRef\<close> (empty before the first render), every debounced function that
  \<open>debounce(func, delay)\<close> has made for it (its \<open>wait\<close> and its \<open>timeoutId\<close>; the
  position in the list is the identity of the function object), the cell of \<open>useMemo\<close>,
  and whether the component is mounted.
\<close>

record ('a, 'w) debounce_hook =
  callbackRef :: "('a, 'w) timed_callback option"
  debounced :: "(nat \<times> nat option) list"
  memo_cell :: "(fn_id \<times> nat list) option"
  hook_mounted :: bool

definition fresh_hook :: "nat \<Rightarrow> nat \<Rightarrow> 'w \<Rightarrow> ('a, 'w) debounce_hook \<times> ('a, 'w) env" where
  "fresh_hook t0 h0 w0 =
     (\<lparr>callbackRef = None, debounced = [], memo_cell = None, hook_mounted = True\<rparr>,
      \<lparr>now = t0, next_handle = Suc h0, queue = [], app = w0\<rparr>)"

text \<open>The factory: \<open>const func = ...; return debounce(func, delay)\<close>.\<close>

definition new_debounced :: "nat \<Rightarrow> ('a, 'w) debounce_hook \<Rightarrow> fn_id \<times> ('a, 'w) debounce_hook" where
  "new_debounced delay H = (length (debounced H), H\<lparr>debounced := debounced H @ [(delay, None)]\<rparr>)"

text \<open>
  Calling the debounced function \<open>g\<close>, and its \<open>cancel\<close>. A caller holds only functions
  the hook returned; for any other number there is nothing to call.
\<close>

definition call_debounced ::
  "fn_id \<Rightarrow> 'a \<Rightarrow> ('a, 'w) debounce_hook \<times> ('a, 'w) env \<Rightarrow> ('a, 'w) debounce_hook \<times> ('a, 'w) env" where
  "call_debounced g args s =
     (case s of (H, E) \<Rightarrow>
        if g < length (debounced H)
        then (let (wait, timeoutId) = debounced H ! g;
                  (timeoutId', E') = debouncedFn wait args (timeoutId, E)
              in (H\<lparr>debounced := (debounced H)[g := (wait, timeoutId')]\<rparr>, E'))
        else (H, E))"

definition cancel_debounced ::
  "fn_id \<Rightarrow> ('a, 'w) debounce_hook \<times> ('a, 'w) env \<Rightarrow> ('a, 'w) debounce_hook \<times> ('a, 'w) env" where
  "cancel_debounced g s =
     (case s of (H, E) \<Rightarrow>
        if g < length (debounced H)
        then (let (wait, timeoutId) = debounced H ! g;
                  (timeoutId', E') = debounce_cancel (timeoutId, E)
              in (H\<lparr>debounced := (debounced H)[g := (wait, timeoutId')]\<rparr>, E'))
        else (H, E))"

text \<open>
  A timer of any of these debounced functions runs \<open>func(...args)\<close>, which is
  \<open>callbackRef.current?.(...args)\<close>: the callback in the ref when the timer runs.
\<close>

definition hook_fire ::
  "'a \<Rightarrow> nat \<Rightarrow> ('a, 'w) debounce_hook \<times> 'w \<Rightarrow> ('a, 'w) debounce_hook \<times> 'w" where
  "hook_fire args t s =
     (case s of (H, w) \<Rightarrow>
        (H, case callbackRef H of None \<Rightarrow> w | Some cb \<Rightarrow> cb args t w))"

text \<open>
  One render with the effects that follow it. The effect on \<open>[debouncedCallback]\<close> runs
  the cleanup of the previous debounced function (\<open>cancel\<close>) when \<open>useMemo\<close> returned
  another one; the effect without dependencies stores the callback in the ref.
\<close>

definition useDebounce ::
  "('a, 'w) timed_callback \<Rightarrow> nat \<Rightarrow> ('a, 'w) debounce_hook \<times> ('a, 'w) env \<Rightarrow>
   fn_id \<times> ('a, 'w) debounce_hook \<times> ('a, 'w) env" where
  "useDebounce cb delay s =
     (case s of (H, E) \<Rightarrow>
        (let H1 = (case callbackRef H of None \<Rightarrow> H\<lparr>callbackRef := Some cb\<rparr> | Some _ \<Rightarrow> H);
             ((g, deps), H2) = useMemo (new_debounced delay) [delay] (memo_cell H1) H1;
             H3 = H2\<lparr>memo_cell := Some (g, deps)\<rparr>;
             (H4, E1) = (case memo_cell H of
                           None \<Rightarrow> (H3, E)
                         | Some (g0, _) \<Rightarrow> if g0 \<noteq> g then cancel_debounced g0 (H3, E) else (H3, E))
         in (g, H4\<lparr>callbackRef := Some cb\<rparr>, E1)))"

text \<open>Unmounting runs the cleanup of the last effect: \<open>debouncedCallback.cancel()\<close>.\<close>

definition useDebounce_unmount ::
  "('a, 'w) debounce_hook \<times> ('a, 'w) env \<Rightarrow> ('a, 'w) debounce_hook \<times> ('a, 'w) env" where
  "useDebounce_unmount s =
     (case s of (H, E) \<Rightarrow>
        (let (H1, E1) = (case memo_cell H of
                           None \<Rightarrow> (H, E)
                         | Some (g, _) \<Rightarrow> cancel_debounced g (H, E))
         in (H1\<lparr>hook_mounted := False\<rparr>, E1)))"

datatype ('a, 'w) hook_event =
  Render "('a, 'w) timed_callback" nat
  | Trigger fn_id 'a
  | Tick nat
  | Unmount

fun hook_step ::
  "('a, 'w) hook_event \<Rightarrow> ('a, 'w) debounce_hook \<times> ('a, 'w) env \<Rightarrow>
   ('a, 'w) debounce_hook \<times> ('a, 'w) env" where
  "hook_step (Render cb delay) s = (if hook_mounted (fst s) then snd (useDebounce cb delay s) else s)"
| "hook_step (Trigger g args) s = call_debounced g args s"
| "hook_step (Tick d) s = run_timers hook_fire (now (snd s) + d) s"
| "hook_step Unmount s = (if hook_mounted (fst s) then useDebounce_unmount s else s)"

definition hook_run ::
  "('a, 'w) hook_event list \<Rightarrow> ('a, 'w) debounce_hook \<times> ('a, 'w) env \<Rightarrow>
   ('a, 'w) debounce_hook \<times> ('a, 'w) env" where
  "hook_run evs s = fold hook_step evs s"

text \<open>Successive renders with one delay; the function each render returns.\<close>

fun useDebounce_renders ::
  "('a, 'w) timed_callback list \<Rightarrow> nat \<Rightarrow> ('a, 'w) debounce_hook \<times> ('a, 'w) env \<Rightarrow>
   fn_id list \<times> ('a, 'w) debounce_hook \<times> ('a, 'w) env" where
  "useDebounce_renders [] delay s = ([], s)"
| "useDebounce_renders (cb # cbs) delay s =
     (let (g, s1) = useDebounce cb delay s;
          (gs, s2) = useDebounce_renders cbs delay s1
      in (g # gs, s2))"

section \<open>useThrottle (chapter 11, optimised)\<close>












section \<open>Properties of the latest-callback cell\<close>

lemma useEventCallback_again:
  "callback_cell sc = Some (g, []) \<Longrightarrow> ref_cell sc = Some prev \<Longrightarrow>
   useEventCallback cb sc = (g, sc\<lparr>callback_cell := Some (g, []), next_fn := Suc (next_fn sc), ref_cell := Some cb\<rparr>)"
  by (simp add: useEventCallback_def useCallback_def register_def)

lemma useEventCallback_first:
  "useEventCallback cb (fresh_scope n) =
     (n, \<lparr>ref_cell = Some cb, callback_cell = Some (n, []), next_fn = Suc n, mounted = True\<rparr>)"
  by (simp add: useEventCallback_def useCallback_def register_def fresh_scope_def)

lemma renders_stable:
  "callback_cell sc = Some (g, []) \<Longrightarrow> ref_cell sc = Some prev \<Longrightarrow>
   fst (renders cbs sc) = replicate (length cbs) g"
proof (induction cbs arbitrary: sc prev)
  case Nil
  then show ?case by simp
next
  case (Cons cb cbs)
  let ?sc1 = "sc\<lparr>callback_cell := Some (g, []), next_fn := Suc (next_fn sc), ref_cell := Some cb\<rparr>"
  have "fst (renders cbs ?sc1) = replicate (length cbs) g"
    by (rule Cons.IH [where prev = cb]) simp_all
  then show ?case
    using useEventCallback_again [OF Cons.prems, of cb]
    by (simp add: split_beta)
qed

lemma useDebounce_first:
  "useDebounce cb delay (fresh_hook t0 h0 w0) =
     (0, \<lparr>callbackRef = Some cb, debounced = [(delay, None)], memo_cell = Some (0, [delay]),
           hook_mounted = True\<rparr>,
         \<lparr>now = t0, next_handle = Suc h0, queue = [], app = w0\<rparr>)"
  by (simp add: useDebounce_def useMemo_def new_debounced_def fresh_hook_def)

lemma useDebounce_again:
  "memo_cell H = Some (g, [delay]) \<Longrightarrow> callbackRef H = Some prev \<Longrightarrow>
   useDebounce cb delay (H, E) = (g, H\<lparr>memo_cell := Some (g, [delay]), callbackRef := Some cb\<rparr>, E)"
  by (simp add: useDebounce_def useMemo_def)

lemma useDebounce_renders_stable:
  "memo_cell H = Some (g, [delay]) \<Longrightarrow> callbackRef H = Some prev \<Longrightarrow>
   fst (useDebounce_renders cbs delay (H, E)) = replicate (length cbs) g"
proof (induction cbs arbitrary: H prev)
  case Nil
  then show ?case by simp
next
  case (Cons cb cbs)
  let ?H1 = "H\<lparr>memo_cell := Some (g, [delay]), callbackRef := Some cb\<rparr>"
  have "fst (useDebounce_renders cbs delay (?H1, E)) = replicate (length cbs) g"
    by (rule Cons.IH [where prev = cb]) simp_all
  then show ?case
    using useDebounce_again [OF Cons.prems, of cb E]
    by (simp add: split_beta)
qed

text \<open>
  C3. Stability: over any sequence of renders of a component, each registering its own
  callback, \<open>useEventCallback\<close> returns at every render the function object created by
  the first render, although every render creates a new arrow function. The same holds
  of \<open>useDebounce\<close> over renders that pass one \<open>delay\<close>: every render returns the
  debounced function made by the first.
\<close>

theorem trigger_identity_stable:
  "fst (renders (cb # cbs) (fresh_scope n)) = replicate (Suc (length cbs)) n \<and>
   fst (useDebounce_renders (tcb # tcbs) delay (fresh_hook t0 h0 w0)) = replicate (Suc (length tcbs)) 0"
proof
  have "fst (renders cbs \<lparr>ref_cell = Some cb, callback_cell = Some (n, []), next_fn = Suc n, mounted = True\<rparr>)
      = replicate (length cbs) n"
    by (rule renders_stable [where prev = cb]) simp_all
  then show "fst (renders (cb # cbs) (fresh_scope n)) = replicate (Suc (length cbs)) n"
    by (simp add: useEventCallback_first split_beta)
next
  have "fst (useDebounce_renders tcbs delay
      (\<lparr>callbackRef = Some tcb, debounced = [(delay, None)], memo_cell = Some (0, [delay]),
           hook_mounted = True\<rparr>, \<lparr>now = t0, next_handle = Suc h0, queue = [], app = w0\<rparr>))
      = replicate (length tcbs) 0"
    by (rule useDebounce_renders_stable [where prev = tcb]) simp_all
  then show "fst (useDebounce_renders (tcb # tcbs) delay (fresh_hook t0 h0 w0)) = replicate (Suc (length tcbs)) 0"
    by (simp add: useDebounce_first split_beta)
qed

text \<open>
  Three renders of \<open>useEventCallback\<close> and two of \<open>useDebounce\<close>, each with another
  callback.
\<close>

theorem trigger_identity_stable_witness:
  "fst (renders [\<lambda>a w. (a, w), \<lambda>a w. (a + w, Suc w), \<lambda>a w. (0, w + a)] (fresh_scope 7)) = [7, 7, 7] \<and>
   fst (useDebounce_renders [\<lambda>a t w. w @ [a], \<lambda>a t w. a # w] 500 (fresh_hook 0 0 ([] :: nat list))) = [0, 0]"
  using trigger_identity_stable [of "\<lambda>a w. (a, w)" "[\<lambda>a w. (a + w, Suc w), \<lambda>a w. (0, w + a)]" 7
      "\<lambda>a t w. w @ [a]" "[\<lambda>a t w. a # w]" 500 0 0 "[] :: nat list"]
  by (simp del: renders.simps useDebounce_renders.simps add: numeral_3_eq_3 numeral_2_eq_2)

text \<open>
  C4. Freshness: after \<open>register(cb1)\<close> and then \<open>register(cb2)\<close> the trigger applies
  \<open>cb2\<close> to the arguments and to the application state and returns its result; \<open>cb1\<close>
  does not run. The same after two renders of \<open>useEventCallback\<close>, whatever the cells
  held before.
\<close>

theorem trigger_calls_latest:
  "trigger (register cb2 (register cb1 sc)) args w = Some (cb2 args w) \<and>
   trigger (snd (useEventCallback cb2 (snd (useEventCallback cb1 sc)))) args w = Some (cb2 args w)"
  by (simp add: trigger_def register_def useEventCallback_def useCallback_def split_beta Let_def
      split: option.splits)


lemma hook_run_Cons: "hook_run (e # es) s = hook_run es (hook_step e s)"
  by (simp add: hook_run_def)

lemma hook_run_Nil: "hook_run [] s = s"
  by (simp add: hook_run_def)




section \<open>Debounce collapsing\<close>

text \<open>
  A burst of calls of the debounced function that \<open>useDebounce\<close> returned, as in the
  demo: each call is followed by a render that registers a new callback.
\<close>

fun hook_burst ::
  "nat \<Rightarrow> 'a \<Rightarrow> ('a, 'w) timed_callback \<Rightarrow> (nat \<times> 'a \<times> ('a, 'w) timed_callback) list \<Rightarrow>
   ('a, 'w) hook_event list" where
  "hook_burst delay a cb [] = [Trigger 0 a, Render cb delay]"
| "hook_burst delay a cb ((gap, a', cb') # rest) =
     Trigger 0 a # Render cb delay # Tick gap # hook_burst delay a' cb' rest"

fun last_call :: "'a \<times> 'c \<Rightarrow> (nat \<times> 'a \<times> 'c) list \<Rightarrow> 'a \<times> 'c" where
  "last_call x [] = x"
| "last_call x ((gap, y) # rest) = last_call y rest"

fun span :: "(nat \<times> 'b) list \<Rightarrow> nat" where
  "span [] = 0"
| "span ((gap, x) # rest) = gap + span rest"

lemma hook_run_append: "hook_run (es @ fs) s = hook_run fs (hook_run es s)"
  by (simp add: hook_run_def)

lemma call_debounced_armed:
  "debounced H = [(delay, tid)] \<Longrightarrow> armed (tid, E) \<Longrightarrow>
   call_debounced 0 a (H, E) =
     (H\<lparr>debounced := [(delay, Some (next_handle E))]\<rparr>,
      E\<lparr>next_handle := Suc (next_handle E), queue := [(next_handle E, now E + delay, a)]\<rparr>)"
  by (simp add: call_debounced_def debouncedFn_armed)

lemma hook_burst_pending:
  "debounced H = [(delay, tid)] \<Longrightarrow> memo_cell H = Some (0, [delay]) \<Longrightarrow>
   callbackRef H = Some prev \<Longrightarrow> hook_mounted H \<Longrightarrow>
   armed (tid, E) \<Longrightarrow> next_handle E \<noteq> 0 \<Longrightarrow>
   \<forall>(gap, x) \<in> set calls. gap < delay \<Longrightarrow>
   hook_run (hook_burst delay a cb calls) (H, E) =
     (H\<lparr>debounced := [(delay, Some (next_handle E + length calls))],
        callbackRef := Some (snd (last_call (a, cb) calls))\<rparr>,
      E\<lparr>now := now E + span calls,
        next_handle := Suc (next_handle E + length calls),
        queue := [(next_handle E + length calls, now E + span calls + delay,
                   fst (last_call (a, cb) calls))]\<rparr>)"
proof (induction calls arbitrary: a cb H tid E prev)
  case Nil
  let ?H1 = "H\<lparr>debounced := [(delay, Some (next_handle E))]\<rparr>"
  have "useDebounce cb delay (?H1, E\<lparr>next_handle := Suc (next_handle E),
        queue := [(next_handle E, now E + delay, a)]\<rparr>) =
      (0, ?H1\<lparr>memo_cell := Some (0, [delay]), callbackRef := Some cb\<rparr>,
       E\<lparr>next_handle := Suc (next_handle E), queue := [(next_handle E, now E + delay, a)]\<rparr>)"
    using Nil.prems by (intro useDebounce_again [where prev = prev]) simp_all
  then show ?case using Nil.prems
    by (simp add: hook_run_Cons hook_run_Nil call_debounced_armed)
next
  case (Cons c calls)
  obtain g a' cb' where c: "c = (g, a', cb')" by (cases c)
  let ?h = "next_handle E"
  let ?H1 = "H\<lparr>debounced := [(delay, Some ?h)]\<rparr>"
  let ?E1 = "E\<lparr>next_handle := Suc ?h, queue := [(?h, now E + delay, a)]\<rparr>"
  let ?H2 = "?H1\<lparr>memo_cell := Some (0, [delay]), callbackRef := Some cb\<rparr>"
  let ?E2 = "?E1\<lparr>now := now E + g\<rparr>"
  have g: "g < delay" using Cons.prems(7) c by simp
  have call: "call_debounced 0 a (H, E) = (?H1, ?E1)"
    using Cons.prems by (simp add: call_debounced_armed)
  have render: "useDebounce cb delay (?H1, ?E1) = (0, ?H2, ?E1)"
    using Cons.prems by (intro useDebounce_again [where prev = prev]) simp_all
  have tick: "run_timers hook_fire (now E + g) (?H2, ?E1) = (?H2, ?E2)"
    using g by (simp add: run_timers_early [where h = ?h and d = "now E + delay" and a = a] max_def)
  have rest: "\<forall>(gap, x) \<in> set calls. gap < delay" using Cons.prems(7) by simp
  have "hook_run (hook_burst delay a cb (c # calls)) (H, E) =
      hook_run (hook_burst delay a' cb' calls) (?H2, ?E2)"
    using Cons.prems(4) by (simp add: c call render tick hook_run_Cons)
  also have "\<dots> =
     (?H2\<lparr>debounced := [(delay, Some (next_handle ?E2 + length calls))],
        callbackRef := Some (snd (last_call (a', cb') calls))\<rparr>,
      ?E2\<lparr>now := now ?E2 + span calls,
        next_handle := Suc (next_handle ?E2 + length calls),
        queue := [(next_handle ?E2 + length calls, now ?E2 + span calls + delay,
                   fst (last_call (a', cb') calls))]\<rparr>)"
    using Cons.prems rest
    by (intro Cons.IH [where prev = cb and tid = "Some ?h"]) (simp_all add: armed_def)
  finally show ?case using Cons.prems(2) by (simp add: c add.assoc)
qed

text \<open>
  C5. Debounce collapsing. A debounced function with none of its timers pending (a new
  one, or one whose last timer has run or was cancelled) receives a burst of calls, each
  less than \<open>wait\<close> milliseconds after the one before, followed by \<open>d\<close> milliseconds of
  silence. If \<open>d\<close> is at least \<open>wait\<close>, the application state is the initial one with
  the callback applied once, at \<open>wait\<close> milliseconds after the last call and to the
  arguments of the last call, and no timer is left; if \<open>d\<close> is less, the callback has
  not run and the one timer of the last call is pending. The callback is arbitrary, so
  the equation counts its invocations. The same burst on the function that
  \<open>useDebounce\<close> returned, every call followed by a render that registers another
  callback: the one invocation is of the callback registered last, with the arguments
  of the last call.
\<close>

theorem debounce_collapses_burst:
  fixes callback :: "('a, 'w) timed_callback" and cb0 :: "('b, 'v) timed_callback"
  assumes idle: "queue E = []" "0 < next_handle E"
    and gaps: "\<forall>(gap, a) \<in> set calls. gap < wait"
    and hook_gaps: "\<forall>(gap, x) \<in> set hcalls. gap < delay"
  shows "debounce_run callback wait (burst a0 calls @ [Elapse d]) (tid, E) =
     (Some (next_handle E + length calls),
      E\<lparr>now := now E + duration calls + d,
        next_handle := Suc (next_handle E + length calls),
        queue := (if wait \<le> d then []
                  else [(next_handle E + length calls, now E + duration calls + wait, last_args a0 calls)]),
        app := (if wait \<le> d then callback (last_args a0 calls) (now E + duration calls + wait) (app E)
                else app E)\<rparr>) \<and>
         app (snd (hook_run (hook_burst delay a cb hcalls @ [Tick d'])
                (snd (useDebounce cb0 delay (fresh_hook t0 h0 w0))))) =
         (if delay \<le> d'
          then snd (last_call (a, cb) hcalls) (fst (last_call (a, cb) hcalls)) (t0 + span hcalls + delay) w0
          else w0)"
proof -
  let ?h = "next_handle E + length calls"
  let ?T = "now E + duration calls"
  let ?P = "E\<lparr>now := ?T, next_handle := Suc ?h, queue := [(?h, ?T + wait, last_args a0 calls)]\<rparr>"
  have "armed (tid, E)" using idle by (simp add: armed_def)
  then have b: "debounce_run callback wait (burst a0 calls) (tid, E) = (Some ?h, ?P)"
    using burst_pending [of tid E calls wait callback a0] gaps idle by simp
  have plain: "debounce_run callback wait (burst a0 calls @ [Elapse d]) (tid, E) =
     (Some (next_handle E + length calls),
      E\<lparr>now := now E + duration calls + d,
        next_handle := Suc (next_handle E + length calls),
        queue := (if wait \<le> d then []
                  else [(next_handle E + length calls, now E + duration calls + wait, last_args a0 calls)]),
        app := (if wait \<le> d then callback (last_args a0 calls) (now E + duration calls + wait) (app E)
                else app E)\<rparr>)"
  proof (cases "wait \<le> d")
    case True
    have "run_timers (debounce_fire callback) (?T + d) (Some ?h, ?P) =
        (Some ?h, ?P\<lparr>now := max (max (now ?P) (?T + wait)) (?T + d), queue := [],
           app := callback (last_args a0 calls) (?T + wait) (app E)\<rparr>)"
      using True
      by (intro run_timers_single [where h = ?h and a = "last_args a0 calls"])
         (simp_all add: debounce_fire_def max_def)
    then show ?thesis using True by (simp add: b max_def debounce_run_simps)
  next
    case False
    have "run_timers (debounce_fire callback) (?T + d) (Some ?h, ?P) =
        (Some ?h, ?P\<lparr>now := max (now ?P) (?T + d)\<rparr>)"
      using False
      by (intro run_timers_early [where h = ?h and d = "?T + wait" and a = "last_args a0 calls"])
         simp_all
    then show ?thesis using False by (simp add: b max_def debounce_run_simps)
  qed

  let ?Hook = "\<lparr>callbackRef = Some cb0, debounced = [(delay, None)], memo_cell = Some (0, [delay]),
           hook_mounted = True\<rparr>"
  let ?Env = "\<lparr>now = t0, next_handle = Suc h0, queue = [], app = w0\<rparr> :: ('b, 'v) env"
  let ?k = "Suc h0 + length hcalls"
  let ?U = "t0 + span hcalls"
  let ?x = "last_call (a, cb) hcalls"
  let ?Hook1 = "?Hook\<lparr>debounced := [(delay, Some ?k)], callbackRef := Some (snd ?x)\<rparr>"
  let ?Q = "?Env\<lparr>now := ?U, next_handle := Suc ?k, queue := [(?k, ?U + delay, fst ?x)]\<rparr>"
  have "hook_run (hook_burst delay a cb hcalls) (?Hook, ?Env) = (?Hook1, ?Q)"
    using hook_burst_pending [of ?Hook delay None cb0 ?Env hcalls a cb] hook_gaps
    by (simp add: armed_def)
  then have hb: "hook_run (hook_burst delay a cb hcalls @ [Tick d'])
                (snd (useDebounce cb0 delay (fresh_hook t0 h0 w0))) =
      run_timers hook_fire (?U + d') (?Hook1, ?Q)"
    by (simp add: hook_run_append useDebounce_first hook_run_Cons hook_run_Nil)
  have hook: "app (snd (hook_run (hook_burst delay a cb hcalls @ [Tick d'])
                (snd (useDebounce cb0 delay (fresh_hook t0 h0 w0))))) =
         (if delay \<le> d'
          then snd (last_call (a, cb) hcalls) (fst (last_call (a, cb) hcalls)) (t0 + span hcalls + delay) w0
          else w0)"
  proof (cases "delay \<le> d'")
    case True
    have "run_timers hook_fire (?U + d') (?Hook1, ?Q) =
        (?Hook1, ?Q\<lparr>now := max (max (now ?Q) (?U + delay)) (?U + d'), queue := [],
           app := snd ?x (fst ?x) (?U + delay) w0\<rparr>)"
      using True
      by (intro run_timers_single [where h = ?k and a = "fst ?x"])
         (simp_all add: hook_fire_def max_def)
    then show ?thesis using True by (simp add: hb)
  next
    case False
    have "run_timers hook_fire (?U + d') (?Hook1, ?Q) = (?Hook1, ?Q\<lparr>now := max (now ?Q) (?U + d')\<rparr>)"
      using False
      by (intro run_timers_early [where h = ?k and d = "?U + delay" and a = "fst ?x"]) simp_all
    then show ?thesis using False by (simp add: hb)
  qed
  from plain hook show ?thesis by (rule conjI)
qed

text \<open>
  The scenario of the specification: \<open>debounce(500)\<close> called at 0, 100, 200 and 300 ms
  with A, B, C, D, the callback appending time and payload to a log; and the same calls
  through \<open>useDebounce\<close>, each followed by a render with a callback that signs its entry.
\<close>

theorem debounce_collapses_burst_witness:
  "list_all (\<lambda>(gap, a). gap < (500::nat)) [(100, ''B''), (100, ''C''), (100, ''D'')] \<and>
   app (snd (debounce_run (\<lambda>a t log. log @ [(t, a)]) 500
        (burst ''A'' [(100, ''B''), (100, ''C''), (100, ''D'')] @ [Elapse 500]) (debounce 0 0 []))) =
     [(800, ''D'')] \<and>
   app (snd (hook_run
        (hook_burst 500 ''A'' (\<lambda>a t log. log @ [(t, a, ''cb1'')])
           [(100, ''B'', \<lambda>a t log. log @ [(t, a, ''cb2'')]),
            (100, ''C'', \<lambda>a t log. log @ [(t, a, ''cb3'')]),
            (100, ''D'', \<lambda>a t log. log @ [(t, a, ''cb4'')])] @ [Tick 500])
        (snd (useDebounce (\<lambda>a t log. log @ [(t, a, ''cb0'')]) 500 (fresh_hook 0 0 []))))) =
     [(800, ''D'', ''cb4'')]"
  using debounce_collapses_burst [of "\<lparr>now = 0, next_handle = Suc 0, queue = [], app = []\<rparr>"
      "[(100, ''B''), (100, ''C''), (100, ''D'')]" 500
      "[(100, ''B'', \<lambda>a t log. log @ [(t, a, ''cb2'')]),
        (100, ''C'', \<lambda>a t log. log @ [(t, a, ''cb3'')]),
        (100, ''D'', \<lambda>a t log. log @ [(t, a, ''cb4'')])]" 500
      "\<lambda>a t log. log @ [(t, a)]" "''A''" 500 None
      "''A''" "\<lambda>a t log. log @ [(t, a, ''cb1'')]" 500
      "\<lambda>a t log. log @ [(t, a, ''cb0'')]" 0 0 "[]"]
  by (simp add: debounce_def)

section \<open>One window of a throttled function, through the hook\<close>















section \<open>The keyed request coordinator (chapter 14, the three solutions)\<close>

subsection \<open>The simulated fetch\<close>

record issue =
  issue_id :: string
  title :: string
  description :: string

text \<open>
  What a state cell or a fetch result holds: \<open>null\<close>, one of the issue records, or a
  value without an \<open>id\<close> (\<open>issuesData[id]\<close> for a string that is not a key of the table
  is \<open>undefined\<close> or a property inherited from \<open>Object.prototype\<close>).
\<close>

datatype jsval = Null | NoIssue | Issue issue

definition issuesData :: "string \<Rightarrow> jsval" where
  "issuesData k =
     (if k = ''1'' then Issue \<lparr>issue_id = ''ISSUE-1'', title = ''Login Bug'',
         description = ''Users cannot login with special characters''\<rparr>
      else if k = ''2'' then Issue \<lparr>issue_id = ''ISSUE-2'', title = ''Dashboard Crash'',
         description = ''Dashboard crashes on mobile devices''\<rparr>
      else if k = ''3'' then Issue \<lparr>issue_id = ''ISSUE-3'', title = ''Payment Failed'',
         description = ''Payment processing times out randomly''\<rparr>
      else NoIssue)"

datatype promise_state = Pending | Fulfilled jsval | Rejected string

text \<open>
  One run of the effect of a page component: the key it fetches, the promise of
  \<open>simulateFetch\<close> and whether the timeout inside it is still set, and the variables of
  the run's closure: \<open>isActive\<close> (PageWithCleanup) and whether the run's
  \<open>AbortController\<close> has been aborted (PageWithAbort). The position of a run in the list
  of runs is its sequence number. The delay of \<open>simulateFetch\<close> is random; the timeout of
  any run that still has one may elapse next.
\<close>

record effect_run =
  run_key :: string
  promise :: promise_state
  timer_pending :: bool
  isActive :: bool
  aborted :: bool

definition simulateFetch :: "string \<Rightarrow> effect_run" where
  "simulateFetch k =
     \<lparr>run_key = k, promise = Pending, timer_pending = True, isActive = True, aborted = False\<rparr>"

subsection \<open>The page components\<close>

text \<open>
  \<open>data\<close> and \<open>loading\<close> hold what the component last passed to \<open>setData\<close> and
  \<open>setLoading\<close>; \<open>commits\<close> lists the calls of \<open>setData\<close>, each with the sequence number
  of the run whose handler made it; \<open>live\<close> is whether React has the component mounted;
  \<open>console\<close> lists the calls of \<open>console.error\<close> and \<open>unhandled\<close> the errors thrown in a
  handler that nothing catches.
\<close>

datatype js_error = TypeError

record page =
  id_prop :: string
  data :: jsval
  loading :: bool
  live :: bool
  currentIdRef :: string
  runs :: "effect_run list"
  commits :: "(nat \<times> jsval) list"
  console :: "string list"
  unhandled :: "js_error list"

datatype solution = Ref | Cleanup | Abort

text \<open>What the component renders: the spinner with the key, or the data.\<close>

datatype view = Unmounted | LoadingView string | IssueView jsval

definition render_view :: "page \<Rightarrow> view" where
  "render_view s =
     (if \<not> live s then Unmounted
      else if loading s then LoadingView (id_prop s)
      else IssueView (data s))"

definition update_run :: "nat \<Rightarrow> (effect_run \<Rightarrow> effect_run) \<Rightarrow> page \<Rightarrow> page" where
  "update_run n f s = (if n < length (runs s) then s\<lparr>runs := (runs s)[n := f (runs s ! n)]\<rparr> else s)"

text \<open>\<open>setData(result); setLoading(false)\<close>, in the handler of run \<open>n\<close>.\<close>

definition commit :: "nat \<Rightarrow> jsval \<Rightarrow> page \<Rightarrow> page" where
  "commit n result s = s\<lparr>data := result, loading := False, commits := commits s @ [(n, result)]\<rparr>"

text \<open>\<open>String.prototype.split\<close> on one character, and \<open>xs[i]\<close> with \<open>undefined\<close> as \<open>None\<close>.\<close>

fun split_on :: "char \<Rightarrow> string \<Rightarrow> string list" where
  "split_on c [] = [[]]"
| "split_on c (x # xs) =
     (if x = c then [] # split_on c xs
      else (case split_on c xs of
              [] \<Rightarrow> [[x]]
            | y # ys \<Rightarrow> (x # y) # ys))"

definition element :: "'a list \<Rightarrow> nat \<Rightarrow> 'a option" where
  "element xs i = (if i < length xs then Some (xs ! i) else None)"

text \<open>
  Solution 1, PageWithRefComparison. The effect stores the key in the ref, sets
  \<open>loading\<close> and fetches; it returns no cleanup. The handler compares the ref with
  \<open>result.id.split("-")[1]\<close>; reading \<open>id\<close> of \<open>undefined\<close>, or \<open>split\<close> of an \<open>id\<close> that is
  \<open>undefined\<close>, throws.
\<close>

definition PageWithRefComparison_effect :: "string \<Rightarrow> page \<Rightarrow> page" where
  "PageWithRefComparison_effect k s =
     s\<lparr>currentIdRef := k, loading := True, runs := runs s @ [simulateFetch k]\<rparr>"

definition PageWithRefComparison_then :: "nat \<Rightarrow> jsval \<Rightarrow> page \<Rightarrow> js_error + page" where
  "PageWithRefComparison_then n result s =
     (case result of
        Issue i \<Rightarrow>
          (if Some (currentIdRef s) = element (split_on CHR ''-'' (issue_id i)) 1
           then Inr (commit n result s)
           else Inr s)
      | _ \<Rightarrow> Inl TypeError)"

text \<open>
  Solution 2, PageWithCleanup. The effect starts a run with \<open>isActive = true\<close>; its
  cleanup sets the run's \<open>isActive\<close> to \<open>false\<close>; the handler commits if the run's
  \<open>isActive\<close> still holds.
\<close>

definition PageWithCleanup_effect :: "string \<Rightarrow> page \<Rightarrow> page" where
  "PageWithCleanup_effect k s = s\<lparr>loading := True, runs := runs s @ [simulateFetch k]\<rparr>"

definition PageWithCleanup_then :: "nat \<Rightarrow> jsval \<Rightarrow> page \<Rightarrow> page" where
  "PageWithCleanup_then n result s =
     (if n < length (runs s) \<and> isActive (runs s ! n) then commit n result s else s)"

definition PageWithCleanup_cleanup :: "nat \<Rightarrow> page \<Rightarrow> page" where
  "PageWithCleanup_cleanup n s = update_run n (\<lambda>r. r\<lparr>isActive := False\<rparr>) s"

text \<open>
  Solution 3, PageWithAbort. The effect passes the signal of a new controller to
  \<open>simulateFetch\<close>; the handler commits without a test; the \<open>catch\<close> handler logs every
  error whose name is not \<open>AbortError\<close> and changes nothing else. The cleanup aborts the
  controller: the listener that \<open>simulateFetch\<close> put on the signal clears the timeout and
  rejects the promise, which has an effect only while the promise is pending, and then
  the \<open>catch\<close> handler runs with the \<open>AbortError\<close>.
\<close>

definition PageWithAbort_effect :: "string \<Rightarrow> page \<Rightarrow> page" where
  "PageWithAbort_effect k s = s\<lparr>loading := True, runs := runs s @ [simulateFetch k]\<rparr>"

definition PageWithAbort_then :: "nat \<Rightarrow> jsval \<Rightarrow> page \<Rightarrow> page" where
  "PageWithAbort_then n result s = commit n result s"

definition PageWithAbort_catch :: "string \<Rightarrow> page \<Rightarrow> page" where
  "PageWithAbort_catch name s =
     (if name \<noteq> ''AbortError'' then s\<lparr>console := console s @ [name]\<rparr> else s)"

definition PageWithAbort_cleanup :: "nat \<Rightarrow> page \<Rightarrow> page" where
  "PageWithAbort_cleanup n s =
     (if n < length (runs s) \<and> \<not> aborted (runs s ! n)
      then (let was_pending = (promise (runs s ! n) = Pending);
                s1 = update_run n (\<lambda>r. r\<lparr>aborted := True, timer_pending := False\<rparr>) s
            in if was_pending
               then PageWithAbort_catch ''AbortError''
                      (update_run n (\<lambda>r. r\<lparr>promise := Rejected ''AbortError''\<rparr>) s1)
               else s1)
      else s)"

subsection \<open>React's part: when effects, cleanups and handlers run\<close>

definition run_effect :: "solution \<Rightarrow> string \<Rightarrow> page \<Rightarrow> page" where
  "run_effect sol k s =
     (case sol of
        Ref \<Rightarrow> PageWithRefComparison_effect k s
      | Cleanup \<Rightarrow> PageWithCleanup_effect k s
      | Abort \<Rightarrow> PageWithAbort_effect k s)"

text \<open>The cleanup that the latest run of the effect returned, if it returned one.\<close>

definition run_cleanup :: "solution \<Rightarrow> page \<Rightarrow> page" where
  "run_cleanup sol s =
     (case sol of
        Ref \<Rightarrow> s
      | Cleanup \<Rightarrow> PageWithCleanup_cleanup (length (runs s) - 1) s
      | Abort \<Rightarrow> PageWithAbort_cleanup (length (runs s) - 1) s)"

definition then_handler :: "solution \<Rightarrow> nat \<Rightarrow> jsval \<Rightarrow> page \<Rightarrow> page" where
  "then_handler sol n result s =
     (case sol of
        Ref \<Rightarrow> (case PageWithRefComparison_then n result s of
                  Inl e \<Rightarrow> s\<lparr>unhandled := unhandled s @ [e]\<rparr>
                | Inr s' \<Rightarrow> s')
      | Cleanup \<Rightarrow> PageWithCleanup_then n result s
      | Abort \<Rightarrow> PageWithAbort_then n result s)"

text \<open>
  The first render: \<open>useState(null)\<close>, \<open>useState(true)\<close>, \<open>useRef(id)\<close>, then the effect.
\<close>

definition mount :: "solution \<Rightarrow> string \<Rightarrow> page" where
  "mount sol k =
     run_effect sol k
       \<lparr>id_prop = k, data = Null, loading = True, live = True, currentIdRef = k, runs = [],
        commits = [], console = [], unhandled = []\<rparr>"

text \<open>
  What can happen to a mounted page: the parent renders it with a key (\<open>SetKey\<close>; the
  effect depends on \<open>[id]\<close>, so it and the cleanup before it run only when the key
  differs from the one of the render before), the timeout inside the fetch of run \<open>n\<close>
  elapses (\<open>Settle n\<close>: \<open>resolve(issuesData[id])\<close>, and the \<open>then\<close> handler if that settled
  the promise), or React unmounts the page (\<open>Teardown\<close>, which runs the last cleanup).
  Each is one step: a render together with the cleanup and the effect that follow it
  (the key changes on a click, for which React runs the effects with the commit), and a
  settled promise together with its handler (a microtask right after the timer).
\<close>

datatype page_event = SetKey string | Settle nat | Teardown

definition settle :: "solution \<Rightarrow> nat \<Rightarrow> page \<Rightarrow> page" where
  "settle sol n s =
     (if n < length (runs s) \<and> timer_pending (runs s ! n)
      then (let result = issuesData (run_key (runs s ! n));
                was_pending = (promise (runs s ! n) = Pending);
                s1 = update_run n (\<lambda>r. r\<lparr>timer_pending := False\<rparr>) s
            in if was_pending
               then then_handler sol n result (update_run n (\<lambda>r. r\<lparr>promise := Fulfilled result\<rparr>) s1)
               else s1)
      else s)"

fun step :: "solution \<Rightarrow> page_event \<Rightarrow> page \<Rightarrow> page" where
  "step sol (SetKey k) s =
     (if live s \<and> k \<noteq> id_prop s then run_effect sol k (run_cleanup sol (s\<lparr>id_prop := k\<rparr>)) else s)"
| "step sol (Settle n) s = settle sol n s"
| "step sol Teardown s = (if live s then (run_cleanup sol s)\<lparr>live := False\<rparr> else s)"

definition run :: "solution \<Rightarrow> page_event list \<Rightarrow> page \<Rightarrow> page" where
  "run sol evs s = fold (step sol) evs s"

text \<open>
  The state React keeps for the component, the cells of \<open>useState\<close> for \<open>data\<close> and
  \<open>loading\<close>. React applies a call of \<open>setData\<close> or \<open>setLoading\<close> to the cells while the
  component is mounted; once it is unmounted the cells are gone, and a call of one of
  its setters does nothing. A step that begins on a mounted page makes its calls while
  the page is mounted (the cleanup of the unmount calls no setter), so the cells after
  it are what the calls of the step left; a step on an unmounted page leaves the cells
  as they were.
\<close>

type_synonym cells = "jsval \<times> bool"

definition react_step :: "solution \<Rightarrow> page_event \<Rightarrow> page \<times> cells \<Rightarrow> page \<times> cells" where
  "react_step sol e sv =
     (case sv of (s, v) \<Rightarrow>
        (let s' = step sol e s
         in (s', if live s then (data s', loading s') else v)))"

definition react_run :: "solution \<Rightarrow> page_event list \<Rightarrow> string \<Rightarrow> page \<times> cells" where
  "react_run sol evs k =
     fold (react_step sol) evs (mount sol k, (data (mount sol k), loading (mount sol k)))"

subsection \<open>Invariants of the pages\<close>

text \<open>
  In every state a page reaches: there is a latest run and it fetches the current key; a
  timeout that is still set belongs to a pending promise. In PageWithCleanup exactly the
  latest run of a mounted page has \<open>isActive\<close>. In PageWithAbort only the latest run of a
  mounted page can still have its timeout and exactly that run is not aborted, and
  nothing has been logged or thrown. In PageWithRefComparison the ref holds the current
  key.
\<close>

definition inv_common :: "page \<Rightarrow> bool" where
  "inv_common s \<longleftrightarrow>
     runs s \<noteq> [] \<and> run_key (last (runs s)) = id_prop s \<and>
     (\<forall>n < length (runs s). timer_pending (runs s ! n) \<longrightarrow> promise (runs s ! n) = Pending)"

definition inv_cleanup :: "page \<Rightarrow> bool" where
  "inv_cleanup s \<longleftrightarrow>
     (\<forall>n < length (runs s). isActive (runs s ! n) \<longleftrightarrow> live s \<and> Suc n = length (runs s))"

definition inv_abort :: "page \<Rightarrow> bool" where
  "inv_abort s \<longleftrightarrow>
     (\<forall>n < length (runs s). timer_pending (runs s ! n) \<longrightarrow> live s \<and> Suc n = length (runs s)) \<and>
     (\<forall>n < length (runs s). aborted (runs s ! n) \<longleftrightarrow> \<not> (live s \<and> Suc n = length (runs s))) \<and>
     console s = [] \<and> unhandled s = []"

definition inv_ref :: "page \<Rightarrow> bool" where
  "inv_ref s \<longleftrightarrow> currentIdRef s = id_prop s"

lemmas page_defs =
  run_effect_def run_cleanup_def then_handler_def settle_def update_run_def commit_def
  PageWithRefComparison_effect_def PageWithRefComparison_then_def
  PageWithCleanup_effect_def PageWithCleanup_then_def PageWithCleanup_cleanup_def
  PageWithAbort_effect_def PageWithAbort_then_def PageWithAbort_catch_def PageWithAbort_cleanup_def
  simulateFetch_def

lemma inv_common_mount: "inv_common (mount sol k)"
  by (cases sol) (simp_all add: inv_common_def mount_def page_defs)

lemma inv_common_step: "inv_common s \<Longrightarrow> inv_common (step sol e s)"
  apply (cases e; cases sol)
  apply (auto simp: inv_common_def page_defs Let_def nth_append nth_list_update last_conv_nth
      split: jsval.splits sum.splits if_splits)
  done

lemma inv_cleanup_mount: "inv_cleanup (mount Cleanup k)"
  by (simp add: inv_cleanup_def mount_def page_defs)

lemma inv_cleanup_step: "inv_common s \<Longrightarrow> inv_cleanup s \<Longrightarrow> inv_cleanup (step Cleanup e s)"
  apply (cases e)
  apply (auto simp: inv_common_def inv_cleanup_def page_defs Let_def nth_append nth_list_update
      split: if_splits)
  done

lemma inv_abort_mount: "inv_abort (mount Abort k)"
  by (simp add: inv_abort_def mount_def page_defs)

lemma inv_abort_step: "inv_common s \<Longrightarrow> inv_abort s \<Longrightarrow> inv_abort (step Abort e s)"
  apply (cases e)
  apply (auto simp: inv_common_def inv_abort_def page_defs Let_def nth_append nth_list_update
      split: if_splits)
  done

lemma inv_ref_mount: "inv_ref (mount Ref k)"
  by (simp add: inv_ref_def mount_def page_defs)

lemma inv_ref_step: "inv_ref s \<Longrightarrow> inv_ref (step Ref e s)"
  apply (cases e)
  apply (auto simp: inv_ref_def page_defs Let_def split: if_splits jsval.splits)
  done

subsection \<open>Runs of a page\<close>

lemma run_Nil: "run sol [] s = s"
  by (simp add: run_def)

lemma run_Cons: "run sol (e # evs) s = run sol evs (step sol e s)"
  by (simp add: run_def)

lemma run_append: "run sol (evs @ later) s = run sol later (run sol evs s)"
  by (simp add: run_def)

lemma run_snoc: "run sol (evs @ [e]) s = step sol e (run sol evs s)"
  by (simp add: run_def)

lemma inv_common_run: "inv_common s \<Longrightarrow> inv_common (run sol evs s)"
  by (induction evs arbitrary: s) (simp_all add: run_Nil run_Cons inv_common_step)

lemma inv_cleanup_run: "inv_common s \<Longrightarrow> inv_cleanup s \<Longrightarrow> inv_cleanup (run Cleanup evs s)"
  by (induction evs arbitrary: s) (simp_all add: run_Nil run_Cons inv_common_step inv_cleanup_step)

lemma inv_abort_run: "inv_common s \<Longrightarrow> inv_abort s \<Longrightarrow> inv_abort (run Abort evs s)"
  by (induction evs arbitrary: s) (simp_all add: run_Nil run_Cons inv_common_step inv_abort_step)

lemma inv_ref_run: "inv_ref s \<Longrightarrow> inv_ref (run Ref evs s)"
  by (induction evs arbitrary: s) (simp_all add: run_Nil run_Cons inv_ref_step)

text \<open>
  The invariant of a page of solution \<open>sol\<close>; it holds in every state reached from the
  first render.
\<close>

definition inv :: "solution \<Rightarrow> page \<Rightarrow> bool" where
  "inv sol s \<longleftrightarrow>
     inv_common s \<and>
     (case sol of Ref \<Rightarrow> inv_ref s | Cleanup \<Rightarrow> inv_cleanup s | Abort \<Rightarrow> inv_abort s)"

lemma inv_reached: "inv sol (run sol evs (mount sol k))"
  by (cases sol)
     (simp_all add: inv_def inv_common_run inv_common_mount inv_ref_run inv_ref_mount
        inv_cleanup_run inv_cleanup_mount inv_abort_run inv_abort_mount)

text \<open>
  C8. At most one fetch per key: rendering a page with the key \<open>k\<close> a second time leaves
  the state as the first render with \<open>k\<close> left it, in each of the three solutions: no run
  of the effect is added, so no fetch is issued, and nothing else changes. The same for
  the key the page was mounted with, which has issued exactly one fetch. A render with a
  key adds one run if the page is mounted and the key differs from the current one, and
  none otherwise.
\<close>

theorem setKey_idempotent:
  "step sol (SetKey k) (step sol (SetKey k) s) = step sol (SetKey k) s \<and>
   step sol (SetKey k) (mount sol k) = mount sol k \<and>
   length (runs (mount sol k)) = 1 \<and>
   length (runs (step sol (SetKey k) s)) = length (runs s) + (if live s \<and> k \<noteq> id_prop s then 1 else 0)"
  by (cases sol) (simp_all add: mount_def page_defs Let_def)

lemma key_of_issuesData:
  "issuesData k = Issue i \<Longrightarrow> element (split_on CHR ''-'' (issue_id i)) 1 = Some k"
  by (auto simp: issuesData_def element_def split: if_splits)


lemma issuesData_not_Null: "issuesData k \<noteq> Null"
  by (simp add: issuesData_def)

text \<open>
  The state right after the timeout of run \<open>n\<close> resolved its promise, before a handler
  has run: only that run differs.
\<close>

definition fulfilled :: "nat \<Rightarrow> page \<Rightarrow> page" where
  "fulfilled n s =
     update_run n (\<lambda>r. r\<lparr>timer_pending := False, promise := Fulfilled (issuesData (run_key r))\<rparr>) s"

lemma fulfilled_fields:
  "id_prop (fulfilled n s) = id_prop s" "data (fulfilled n s) = data s"
  "loading (fulfilled n s) = loading s" "live (fulfilled n s) = live s"
  "currentIdRef (fulfilled n s) = currentIdRef s" "commits (fulfilled n s) = commits s"
  "console (fulfilled n s) = console s" "unhandled (fulfilled n s) = unhandled s"
  "length (runs (fulfilled n s)) = length (runs s)"
  by (simp_all add: fulfilled_def update_run_def)

lemma settle_Cleanup:
  "inv_common s \<Longrightarrow> n < length (runs s) \<Longrightarrow> timer_pending (runs s ! n) \<Longrightarrow>
   settle Cleanup n s =
     (if isActive (runs s ! n) then commit n (issuesData (run_key (runs s ! n))) (fulfilled n s)
      else fulfilled n s)"
  by (simp add: inv_common_def page_defs fulfilled_def Let_def)

lemma settle_Abort:
  "inv_common s \<Longrightarrow> n < length (runs s) \<Longrightarrow> timer_pending (runs s ! n) \<Longrightarrow>
   settle Abort n s = commit n (issuesData (run_key (runs s ! n))) (fulfilled n s)"
  by (simp add: inv_common_def page_defs fulfilled_def Let_def)

lemma settle_Ref:
  "inv_common s \<Longrightarrow> inv_ref s \<Longrightarrow> n < length (runs s) \<Longrightarrow> timer_pending (runs s ! n) \<Longrightarrow>
   settle Ref n s =
     (if issuesData (run_key (runs s ! n)) = NoIssue
      then (fulfilled n s)\<lparr>unhandled := unhandled s @ [TypeError]\<rparr>
      else if run_key (runs s ! n) = id_prop s
      then commit n (issuesData (run_key (runs s ! n))) (fulfilled n s)
      else fulfilled n s)"
proof -
  assume c: "inv_common s" and r: "inv_ref s" and n: "n < length (runs s)"
    and t: "timer_pending (runs s ! n)"
  let ?k = "run_key (runs s ! n)"
  have p: "promise (runs s ! n) = Pending" using c n t by (simp add: inv_common_def)
  show ?thesis
  proof (cases "issuesData ?k")
    case Null
    then show ?thesis using issuesData_not_Null by blast
  next
    case NoIssue
    then show ?thesis using n t p
      by (simp add: page_defs fulfilled_def Let_def)
  next
    case (Issue i)
    have "element (split_on CHR ''-'' (issue_id i)) 1 = Some ?k"
      using Issue by (rule key_of_issuesData)
    then show ?thesis using n t p r Issue
      by (auto simp: page_defs fulfilled_def Let_def inv_ref_def)
  qed
qed

text \<open>
  C2, as the code has it. When the timeout of run \<open>n\<close> elapses in a state the page has
  reached: PageWithCleanup commits the result if the run's \<open>isActive\<close> holds, which is so
  exactly for the latest run of a mounted page, and otherwise changes nothing but the
  settled promise (no data, no loading flag, no log entry, no new fetch).
  PageWithRefComparison compares keys, not runs: it commits if the key of the run is the
  current key, also when the run is not the latest one, changes nothing but the promise
  if the keys differ, and throws an uncaught TypeError if the result has no \<open>id\<close>.
  In PageWithAbort only the latest run of a mounted page can resolve, and it commits.
  The state \<open>s'\<close> in which the promise is settled and no handler has run differs from
  the state before in that run only.
\<close>

theorem resolution_commits_iff_wanted:
  assumes n: "n < length (runs (run sol evs (mount sol k)))"
    and t: "timer_pending (runs (run sol evs (mount sol k)) ! n)"
  shows "let s = run sol evs (mount sol k);
             result = issuesData (run_key (runs s ! n));
             s' = fulfilled n s
         in (sol = Cleanup \<longrightarrow>
               (isActive (runs s ! n) \<longleftrightarrow> live s \<and> Suc n = length (runs s)) \<and>
               step sol (Settle n) s = (if isActive (runs s ! n) then commit n result s' else s')) \<and>
            (sol = Ref \<longrightarrow>
               step sol (Settle n) s =
                 (if result = NoIssue then s'\<lparr>unhandled := unhandled s @ [TypeError]\<rparr>
                  else if run_key (runs s ! n) = id_prop s then commit n result s'
                  else s')) \<and>
            (sol = Abort \<longrightarrow>
               live s \<and> Suc n = length (runs s) \<and> step sol (Settle n) s = commit n result s') \<and>
            data s' = data s \<and> loading s' = loading s \<and> commits s' = commits s \<and>
            console s' = console s \<and> unhandled s' = unhandled s \<and>
            length (runs s') = length (runs s)"
proof -
  let ?s = "run sol evs (mount sol k)"
  have i: "inv sol ?s" by (rule inv_reached)
  then have c: "inv_common ?s" by (simp add: inv_def)
  show ?thesis
  proof (cases sol)
    case Ref
    then have "inv_ref ?s" using i by (simp add: inv_def)
    then show ?thesis using Ref c n t by (simp add: settle_Ref Let_def fulfilled_fields)
  next
    case Cleanup
    then have "inv_cleanup ?s" using i by (simp add: inv_def)
    then have "isActive (runs ?s ! n) \<longleftrightarrow> live ?s \<and> Suc n = length (runs ?s)"
      using n by (simp add: inv_cleanup_def)
    then show ?thesis using Cleanup c n t by (simp add: settle_Cleanup Let_def fulfilled_fields)
  next
    case Abort
    then have "inv_abort ?s" using i by (simp add: inv_def)
    then have "live ?s \<and> Suc n = length (runs ?s)"
      using n t by (simp add: inv_abort_def)
    then show ?thesis using Abort c n t by (simp add: settle_Abort Let_def fulfilled_fields)
  qed
qed


lemmas page_eval = run_def mount_def page_defs issuesData_def element_def fulfilled_def Let_def

text \<open>
  PageWithCleanup after the keys 1 and 2: the fetch for 1 resolves without a commit, the
  fetch for 2 commits.
\<close>

theorem resolution_commits_iff_wanted_witness:
  "\<not> isActive (runs (run Cleanup [SetKey ''2''] (mount Cleanup ''1'')) ! 0) \<and>
   step Cleanup (Settle 0) (run Cleanup [SetKey ''2''] (mount Cleanup ''1'')) =
     fulfilled 0 (run Cleanup [SetKey ''2''] (mount Cleanup ''1'')) \<and>
   isActive (runs (run Cleanup [SetKey ''2''] (mount Cleanup ''1'')) ! 1) \<and>
   step Cleanup (Settle 1) (run Cleanup [SetKey ''2''] (mount Cleanup ''1'')) =
     commit 1 (issuesData ''2'') (fulfilled 1 (run Cleanup [SetKey ''2''] (mount Cleanup ''1'')))"
proof -
  let ?s = "run Cleanup [SetKey ''2''] (mount Cleanup ''1'')"
  have r: "runs ?s =
      [\<lparr>run_key = ''1'', promise = Pending, timer_pending = True, isActive = False, aborted = False\<rparr>,
       \<lparr>run_key = ''2'', promise = Pending, timer_pending = True, isActive = True, aborted = False\<rparr>]"
    by (simp add: run_def mount_def page_defs)
  have "0 < length (runs ?s)" and "timer_pending (runs ?s ! 0)"
    and "1 < length (runs ?s)" and "timer_pending (runs ?s ! 1)"
    by (simp_all add: r)
  then show ?thesis
    using resolution_commits_iff_wanted [of 0 Cleanup "[SetKey ''2'']" "''1''"]
      resolution_commits_iff_wanted [of 1 Cleanup "[SetKey ''2'']" "''1''"]
    by (simp add: Let_def r)
qed

text \<open>
  C2 as stated fails in PageWithRefComparison: after the keys 1, 2, 1 three fetches have
  been issued; when the first of them resolves, its sequence number is not the current
  one, and yet its result is committed and the loading flag is cleared.
\<close>

theorem resolution_by_sequence_counterexample:
  "length (runs (run Ref [SetKey ''2'', SetKey ''1''] (mount Ref ''1''))) = 3 \<and>
   loading (run Ref [SetKey ''2'', SetKey ''1''] (mount Ref ''1'')) \<and>
   data (run Ref [SetKey ''2'', SetKey ''1''] (mount Ref ''1'')) = Null \<and>
   commits (run Ref [SetKey ''2'', SetKey ''1''] (mount Ref ''1'')) = [] \<and>
   \<not> loading (run Ref [SetKey ''2'', SetKey ''1'', Settle 0] (mount Ref ''1'')) \<and>
   data (run Ref [SetKey ''2'', SetKey ''1'', Settle 0] (mount Ref ''1'')) = issuesData ''1'' \<and>
   commits (run Ref [SetKey ''2'', SetKey ''1'', Settle 0] (mount Ref ''1'')) = [(0, issuesData ''1'')]"
  by (simp add: page_eval)

subsection \<open>What a page commits\<close>

text \<open>
  Once the fetch of the latest run of a mounted page has resolved, the page shows the
  result for the current key and the last commit was of that result. For
  PageWithRefComparison this needs the current key to be one of the table, since the
  handler throws on a result without \<open>id\<close>.
\<close>

definition shows_current :: "solution \<Rightarrow> page \<Rightarrow> bool" where
  "shows_current sol s \<longleftrightarrow>
     (live s \<and> \<not> timer_pending (last (runs s)) \<and> (sol = Ref \<longrightarrow> issuesData (id_prop s) \<noteq> NoIssue) \<longrightarrow>
      data s = issuesData (id_prop s) \<and> \<not> loading s \<and>
      commits s \<noteq> [] \<and> snd (last (commits s)) = issuesData (id_prop s))"

lemma shows_current_mount: "shows_current sol (mount sol k)"
  by (cases sol) (simp_all add: shows_current_def mount_def page_defs)

lemma fulfilled_runs:
  "m < length (runs s) \<Longrightarrow>
   timer_pending (runs (fulfilled n s) ! m) = (m \<noteq> n \<and> timer_pending (runs s ! m))"
  "m < length (runs s) \<Longrightarrow> run_key (runs (fulfilled n s) ! m) = run_key (runs s ! m)"
  by (auto simp: fulfilled_def update_run_def nth_list_update)

lemma commit_fields:
  "id_prop (commit n v s) = id_prop s" "data (commit n v s) = v"
  "loading (commit n v s) = False" "live (commit n v s) = live s"
  "commits (commit n v s) = commits s @ [(n, v)]" "runs (commit n v s) = runs s"
  by (simp_all add: commit_def)


lemma fulfilled_last:
  "runs s \<noteq> [] \<Longrightarrow>
   timer_pending (last (runs (fulfilled n s))) = (Suc n \<noteq> length (runs s) \<and> timer_pending (last (runs s)))"
  by (auto simp: fulfilled_def update_run_def last_conv_nth nth_list_update)

text \<open>
  Whether the handler of run \<open>n\<close> commits when the run's fetch resolves in a reached
  state.
\<close>

definition wanted :: "solution \<Rightarrow> nat \<Rightarrow> page \<Rightarrow> bool" where
  "wanted sol n s =
     (case sol of
        Ref \<Rightarrow> issuesData (run_key (runs s ! n)) \<noteq> NoIssue \<and> run_key (runs s ! n) = id_prop s
      | Cleanup \<Rightarrow> live s \<and> Suc n = length (runs s)
      | Abort \<Rightarrow> True)"

lemma settle_reached:
  assumes i: "inv sol s"
  shows "settle sol n s =
     (if n < length (runs s) \<and> timer_pending (runs s ! n)
      then (if wanted sol n s then commit n (issuesData (run_key (runs s ! n))) (fulfilled n s)
            else if sol = Ref \<and> issuesData (run_key (runs s ! n)) = NoIssue
            then (fulfilled n s)\<lparr>unhandled := unhandled s @ [TypeError]\<rparr>
            else fulfilled n s)
      else s)"
proof (cases "n < length (runs s) \<and> timer_pending (runs s ! n)")
  case False
  then show ?thesis by (auto simp: settle_def)
next
  case True
  have c: "inv_common s" using i by (simp add: inv_def)
  show ?thesis
  proof (cases sol)
    case Ref
    then have "inv_ref s" using i by (simp add: inv_def)
    then show ?thesis using Ref True c by (auto simp: settle_Ref wanted_def)
  next
    case Cleanup
    then have "inv_cleanup s" using i by (simp add: inv_def)
    then have "isActive (runs s ! n) \<longleftrightarrow> live s \<and> Suc n = length (runs s)"
      using True by (simp add: inv_cleanup_def)
    then show ?thesis using Cleanup True c by (simp add: settle_Cleanup wanted_def)
  next
    case Abort
    then show ?thesis using True c by (simp add: settle_Abort wanted_def)
  qed
qed

lemma wanted_current:
  assumes i: "inv sol s" and n: "n < length (runs s)" and t: "timer_pending (runs s ! n)"
    and w: "wanted sol n s"
  shows "run_key (runs s ! n) = id_prop s"
proof -
  have c: "inv_common s" using i by (simp add: inv_def)
  then have l: "run_key (runs s ! (length (runs s) - 1)) = id_prop s"
    by (auto simp: inv_common_def last_conv_nth)
  show ?thesis
  proof (cases sol)
    case Ref
    then show ?thesis using w by (simp add: wanted_def)
  next
    case Cleanup
    then have "Suc n = length (runs s)" using w by (simp add: wanted_def)
    then have "n = length (runs s) - 1" by simp
    then show ?thesis using l by simp
  next
    case Abort
    then have "inv_abort s" using i by (simp add: inv_def)
    then have "Suc n = length (runs s)" using n t by (simp add: inv_abort_def)
    then have "n = length (runs s) - 1" by simp
    then show ?thesis using l by simp
  qed
qed

lemma commit_only_current:
  assumes i: "inv sol s"
  shows "commits (step sol e s) = commits s \<or>
         (\<exists>n < length (runs s). e = Settle n \<and> run_key (runs s ! n) = id_prop s \<and>
            commits (step sol e s) = commits s @ [(n, issuesData (id_prop s))])"
proof (cases e)
  case (SetKey k)
  then show ?thesis by (cases sol) (simp_all add: page_defs Let_def)
next
  case Teardown
  then show ?thesis by (cases sol) (simp_all add: page_defs Let_def)
next
  case (Settle n)
  show ?thesis
  proof (cases "n < length (runs s) \<and> timer_pending (runs s ! n) \<and> wanted sol n s")
    case True
    then have "run_key (runs s ! n) = id_prop s" using wanted_current [OF i] by simp
    then show ?thesis using True Settle
      by (simp add: settle_reached [OF i] commit_fields fulfilled_fields)
  next
    case False
    then show ?thesis using Settle
      by (auto simp: settle_reached [OF i] commit_fields fulfilled_fields)
  qed
qed


lemma inv_step: "inv sol s \<Longrightarrow> inv sol (step sol e s)"
  by (cases sol) (simp_all add: inv_def inv_common_step inv_ref_step inv_cleanup_step inv_abort_step)

lemma step_SetKey_new:
  "live s \<Longrightarrow> k \<noteq> id_prop s \<Longrightarrow>
   id_prop (step sol (SetKey k) s) = k \<and> live (step sol (SetKey k) s) \<and>
   length (runs (step sol (SetKey k) s)) = Suc (length (runs s)) \<and>
   timer_pending (last (runs (step sol (SetKey k) s))) \<and>
   timer_pending (runs (step sol (SetKey k) s) ! length (runs s)) \<and>
   commits (step sol (SetKey k) s) = commits s"
  by (cases sol) (simp_all add: page_defs Let_def nth_append)

lemma shows_current_step:
  assumes i: "inv sol s" and h: "shows_current sol s"
  shows "shows_current sol (step sol e s)"
proof (cases e)
  case (SetKey k)
  show ?thesis
  proof (cases "live s \<and> k \<noteq> id_prop s")
    case True
    then show ?thesis using SetKey step_SetKey_new [of s k sol] by (simp add: shows_current_def)
  next
    case False
    then show ?thesis using SetKey h by auto
  qed
next
  case Teardown
  then show ?thesis using h by (auto simp: shows_current_def)
next
  case (Settle n)
  have c: "inv_common s" using i by (simp add: inv_def)
  then have ne: "runs s \<noteq> []" by (simp add: inv_common_def)
  have l: "run_key (runs s ! (length (runs s) - 1)) = id_prop s"
    using c by (auto simp: inv_common_def last_conv_nth)
  show ?thesis
  proof (cases "n < length (runs s) \<and> timer_pending (runs s ! n)")
    case False
    then show ?thesis using Settle h by (auto simp: settle_reached [OF i])
  next
    case pending: True
    show ?thesis
    proof (cases "wanted sol n s")
      case True
      then have "run_key (runs s ! n) = id_prop s" using wanted_current [OF i] pending by simp
      then show ?thesis using True pending Settle
        by (simp add: settle_reached [OF i] shows_current_def commit_fields fulfilled_fields)
    next
      case False
      have keep: "Suc n = length (runs s) \<Longrightarrow>
          \<not> (live s \<and> (sol = Ref \<longrightarrow> issuesData (id_prop s) \<noteq> NoIssue))"
      proof -
        assume last: "Suc n = length (runs s)"
        then have n: "n = length (runs s) - 1" by simp
        show ?thesis
        proof (cases sol)
          case Ref
          then show ?thesis using False l n by (auto simp: wanted_def)
        next
          case Cleanup
          then show ?thesis using False last by (simp add: wanted_def)
        next
          case Abort
          then show ?thesis using False by (simp add: wanted_def)
        qed
      qed
      show ?thesis
      proof (cases "Suc n = length (runs s)")
        case True
        then show ?thesis using keep False pending Settle
          by (auto simp: settle_reached [OF i] shows_current_def fulfilled_fields)
      next
        case other: False
        then show ?thesis using False pending Settle h ne
          by (auto simp: settle_reached [OF i] shows_current_def fulfilled_fields fulfilled_last)
      qed
    qed
  qed
qed

lemma shows_current_reached: "shows_current sol (run sol evs (mount sol k))"
proof (induction evs rule: rev_induct)
  case Nil
  then show ?case by (simp add: run_Nil shows_current_mount)
next
  case (snoc e evs)
  then show ?case using inv_reached [of sol evs k] by (simp add: run_snoc shows_current_step)
qed


lemma settle_frame:
  assumes i: "inv sol s"
  shows "id_prop (settle sol n s) = id_prop s \<and> live (settle sol n s) = live s \<and>
         length (runs (settle sol n s)) = length (runs s) \<and>
         (\<forall>m < length (runs s).
            timer_pending (runs (settle sol n s) ! m) = (timer_pending (runs s ! m) \<and> m \<noteq> n))"
  by (auto simp: settle_reached [OF i] commit_fields fulfilled_fields fulfilled_runs)

lemma settles_frame:
  "inv sol s \<Longrightarrow>
   id_prop (run sol (map Settle ms) s) = id_prop s \<and> live (run sol (map Settle ms) s) = live s \<and>
   length (runs (run sol (map Settle ms) s)) = length (runs s) \<and>
   (\<forall>m < length (runs s).
      timer_pending (runs (run sol (map Settle ms) s) ! m) = (timer_pending (runs s ! m) \<and> m \<notin> set ms))"
proof (induction ms arbitrary: s)
  case Nil
  then show ?case by (simp add: run_Nil)
next
  case (Cons n ms)
  let ?s1 = "settle sol n s"
  have i1: "inv sol ?s1" using inv_step [OF Cons.prems, of "Settle n"] by simp
  have f: "id_prop ?s1 = id_prop s \<and> live ?s1 = live s \<and> length (runs ?s1) = length (runs s) \<and>
      (\<forall>m < length (runs s). timer_pending (runs ?s1 ! m) = (timer_pending (runs s ! m) \<and> m \<noteq> n))"
    by (rule settle_frame [OF Cons.prems])
  show ?case using Cons.IH [OF i1] f by (auto simp: run_Cons)
qed

text \<open>
  C1. No stale commit. A page is mounted with key \<open>A\<close> and then rendered with another
  key \<open>B\<close>; fetches resolve in any order (\<open>ns\<close> before the change of key, \<open>ms\<close> after it,
  any sequence numbers, in any order and any number of times), and the fetch for \<open>B\<close>
  (sequence number 1) is among those that resolve after the change. Then the page shows
  the result for \<open>B\<close>, and the last commit was of the result for \<open>B\<close>. In every state a
  page reaches, by any events at all, a step either commits nothing or is the
  resolution of a fetch whose key is the key active at that moment, and it commits the
  result for that key; so a result for a superseded key is never committed. This holds
  of the three solutions; PageWithRefComparison shows the result for \<open>B\<close> if \<open>B\<close> is a key
  of the table.
\<close>

theorem no_stale_commit:
  assumes differ: "A \<noteq> B" and resolved: "1 \<in> set ms"
    and known: "sol = Ref \<longrightarrow> issuesData B \<noteq> NoIssue"
  shows "(let s = run sol (map Settle ns @ SetKey B # map Settle ms) (mount sol A)
          in id_prop s = B \<and> data s = issuesData B \<and> \<not> loading s \<and>
             commits s \<noteq> [] \<and> snd (last (commits s)) = issuesData B) \<and>
         (let s = run sol evs (mount sol k)
          in commits (step sol e s) = commits s \<or>
             (\<exists>n < length (runs s). e = Settle n \<and> run_key (runs s ! n) = id_prop s \<and>
                commits (step sol e s) = commits s @ [(n, issuesData (id_prop s))])) \<and>
         shows_current sol (run sol evs (mount sol k))"
proof -
  let ?s0 = "mount sol A"
  let ?s1 = "run sol (map Settle ns) ?s0"
  let ?s2 = "step sol (SetKey B) ?s1"
  let ?s3 = "run sol (map Settle ms) ?s2"
  have i0: "inv sol ?s0" using inv_reached [of sol "[]" A] by (simp add: run_Nil)
  have i1: "inv sol ?s1" by (rule inv_reached)
  have i2: "inv sol ?s2" by (rule inv_step [OF i1])
  have m0: "id_prop ?s0 = A \<and> live ?s0 \<and> length (runs ?s0) = 1"
    by (cases sol) (simp_all add: mount_def page_defs)
  have f1: "id_prop ?s1 = A \<and> live ?s1 \<and> length (runs ?s1) = 1"
    using settles_frame [OF i0, of ns] m0 by simp
  then have f2: "id_prop ?s2 = B \<and> live ?s2 \<and> length (runs ?s2) = 2 \<and> timer_pending (runs ?s2 ! 1)"
    using step_SetKey_new [of ?s1 B sol] differ by (simp del: step.simps)
  then have f3: "id_prop ?s3 = B \<and> live ?s3 \<and> length (runs ?s3) = 2 \<and> \<not> timer_pending (runs ?s3 ! 1)"
    using settles_frame [OF i2, of ms] resolved by (simp del: step.simps)
  then have "runs ?s3 \<noteq> []" by auto
  then have l: "last (runs ?s3) = runs ?s3 ! 1" using f3 by (simp add: last_conv_nth)
  have eq: "run sol (map Settle ns @ SetKey B # map Settle ms) (mount sol A) = ?s3"
    by (simp add: run_append run_Cons)
  have sc: "shows_current sol ?s3" unfolding eq [symmetric] by (rule shows_current_reached)
  have prem: "live ?s3 \<and> \<not> timer_pending (last (runs ?s3)) \<and>
      (sol = Ref \<longrightarrow> issuesData (id_prop ?s3) \<noteq> NoIssue)"
    using f3 l known by metis
  from sc prem have "data ?s3 = issuesData (id_prop ?s3) \<and> \<not> loading ?s3 \<and>
      commits ?s3 \<noteq> [] \<and> snd (last (commits ?s3)) = issuesData (id_prop ?s3)"
    unfolding shows_current_def by blast
  then have final: "id_prop ?s3 = B \<and> data ?s3 = issuesData B \<and> \<not> loading ?s3 \<and>
      commits ?s3 \<noteq> [] \<and> snd (last (commits ?s3)) = issuesData B"
    using f3 by metis
  show ?thesis
    using final commit_only_current [OF inv_reached, of sol e evs k] shows_current_reached [of sol evs k]
    by (simp add: eq Let_def del: step.simps)
qed

text \<open>
  PageWithCleanup, keys 1 then 2, the fetch for 2 resolving before the fetch for 1; and
  the scenario of the specification, keys 1, 2, 3 with the fetches resolving in the
  order 3, 2, 1.
\<close>

theorem no_stale_commit_witness:
  "data (run Cleanup [SetKey ''2'', Settle 1, Settle 0] (mount Cleanup ''1'')) = issuesData ''2'' \<and>
   \<not> loading (run Cleanup [SetKey ''2'', Settle 1, Settle 0] (mount Cleanup ''1'')) \<and>
   snd (last (commits (run Cleanup [SetKey ''2'', Settle 1, Settle 0] (mount Cleanup ''1'')))) =
     issuesData ''2'' \<and>
   data (run Cleanup [SetKey ''2'', SetKey ''3'', Settle 2, Settle 1, Settle 0] (mount Cleanup ''1'')) =
     issuesData ''3''"
proof -
  let ?evs = "[SetKey ''2'', SetKey ''3'', Settle 2, Settle 1, Settle 0]"
  have p: "live (run Cleanup ?evs (mount Cleanup ''1'')) \<and>
      \<not> timer_pending (last (runs (run Cleanup ?evs (mount Cleanup ''1'')))) \<and>
      id_prop (run Cleanup ?evs (mount Cleanup ''1'')) = ''3''"
    by (simp add: page_eval)
  show ?thesis
    using no_stale_commit [of "''1''" "''2''" "[1, 0]" Cleanup "[]" ?evs "''1''" Teardown] p
    by (simp add: Let_def shows_current_def del: step.simps)
qed



subsection \<open>After the unmount\<close>

text \<open>
  An unmounted page stays unmounted, the cells React holds are those of the page while
  it is mounted, and after the unmount they do not change.
\<close>

lemma live_settle: "live (settle sol n s) = live s"
  by (cases sol) (auto simp: page_defs Let_def split: jsval.splits sum.splits if_splits)

lemma dead_step: "\<not> live s \<Longrightarrow> \<not> live (step sol e s)"
  by (cases e) (simp_all add: live_settle)


lemma react_fold_fst: "fst (fold (react_step sol) evs (s, v)) = run sol evs s"
  by (induction evs arbitrary: s v) (simp_all add: run_Nil run_Cons react_step_def Let_def del: step.simps)

lemma react_run_fst: "fst (react_run sol evs k) = run sol evs (mount sol k)"
  by (simp add: react_run_def react_fold_fst)


lemma react_run_append:
  "react_run sol (evs @ later) k = fold (react_step sol) later (react_run sol evs k)"
  by (simp add: react_run_def)

lemma react_run_live:
  "live (run sol evs (mount sol k)) \<Longrightarrow>
   snd (react_run sol evs k) = (data (run sol evs (mount sol k)), loading (run sol evs (mount sol k)))"
proof (induction evs rule: rev_induct)
  case Nil
  then show ?case by (simp add: react_run_def run_Nil)
next
  case (snoc e evs)
  let ?Here = "run sol evs (mount sol k)"
  obtain s1 v where p: "react_run sol evs k = (s1, v)" by (cases "react_run sol evs k")
  then have s1: "s1 = ?Here" using react_run_fst [of sol evs k] by simp
  have "live ?Here" using snoc.prems dead_step [of ?Here sol e] by (auto simp: run_snoc simp del: step.simps)
  then show ?case using p s1
    by (simp add: react_run_append react_step_def Let_def run_snoc del: step.simps)
qed





text \<open>
  PageWithRefComparison returns no cleanup from its effect. When the fetch of the page
  torn down above resolves, the ref still holds the key, the comparison succeeds and the
  handler calls \<open>setData\<close> and \<open>setLoading\<close> of the unmounted component; the calls
  change nothing that React holds.
\<close>

lemma late_setters_ignored:
  "commits (run Ref [Teardown] (mount Ref ''1'')) = [] \<and>
   commits (run Ref [Teardown, Settle 0] (mount Ref ''1'')) = [(0, issuesData ''1'')] \<and>
   snd (react_run Ref [Teardown] ''1'') = (Null, True) \<and>
   snd (react_run Ref [Teardown, Settle 0] ''1'') = (Null, True) \<and>
   render_view (run Ref [Teardown, Settle 0] (mount Ref ''1'')) = Unmounted"
  by (simp add: react_run_def react_step_def render_view_def page_eval)

subsection \<open>Errors in PageWithAbort\<close>

text \<open>
  The only rejection of \<open>simulateFetch\<close> is the \<open>AbortError\<close> of its abort listener, and the
  \<open>then\<close> handler of PageWithAbort cannot throw. The \<open>catch\<close> handler changes neither the
  data nor the loading flag nor what the page renders, whatever it is given; it logs
  with \<open>console.error\<close> unless the name of the error is \<open>AbortError\<close>. Aborting a fetch (the
  cleanup of PageWithAbort) changes neither the data nor the loading flag and logs
  nothing, and in every run of PageWithAbort nothing is logged and nothing is thrown.
\<close>

lemma cancellation_absorbed:
  "data (PageWithAbort_catch name s) = data s \<and>
   loading (PageWithAbort_catch name s) = loading s \<and>
   commits (PageWithAbort_catch name s) = commits s \<and>
   render_view (PageWithAbort_catch name s) = render_view s \<and>
   console (PageWithAbort_catch name s) = (if name = ''AbortError'' then console s else console s @ [name]) \<and>
   data (run_cleanup Abort s) = data s \<and> loading (run_cleanup Abort s) = loading s \<and>
   commits (run_cleanup Abort s) = commits s \<and> console (run_cleanup Abort s) = console s \<and>
   unhandled (run_cleanup Abort s) = unhandled s \<and>
   console (run Abort evs (mount Abort k)) = [] \<and>
   unhandled (run Abort evs (mount Abort k)) = []"
proof -
  have handler: "data (PageWithAbort_catch name s) = data s \<and>
      loading (PageWithAbort_catch name s) = loading s \<and>
      commits (PageWithAbort_catch name s) = commits s \<and>
      render_view (PageWithAbort_catch name s) = render_view s \<and>
      console (PageWithAbort_catch name s) =
        (if name = ''AbortError'' then console s else console s @ [name])"
    by (simp add: PageWithAbort_catch_def render_view_def)
  have abort: "data (run_cleanup Abort s) = data s \<and> loading (run_cleanup Abort s) = loading s \<and>
      commits (run_cleanup Abort s) = commits s \<and> console (run_cleanup Abort s) = console s \<and>
      unhandled (run_cleanup Abort s) = unhandled s"
    by (simp add: page_defs Let_def)
  have "inv Abort (run Abort evs (mount Abort k))" by (rule inv_reached)
  then have "console (run Abort evs (mount Abort k)) = [] \<and> unhandled (run Abort evs (mount Abort k)) = []"
    by (simp add: inv_def inv_abort_def)
  with handler abort show ?thesis by simp
qed

end
